theory Spec2Isabelle
  imports Complex_Main "HOL-Library.Multiset"
begin

section \<open>Data model\<close>

text \<open>
  A Python \<open>str\<close> is a sequence of Unicode code points; a code point is a natural number.
  A \<open>collections.Counter\<close> is a dictionary from units to (unbounded) integers that keeps
  its keys in insertion order: an association list whose keys are pairwise distinct.
\<close>

type_synonym str = "nat list"

type_synonym 'k counter = "('k \<times> int) list"

text \<open>\<open>counter[k] = counter.get(k, 0) + 1\<close>: an existing key keeps its place, a new key
  goes to the end.\<close>

fun incr :: "'k \<Rightarrow> 'k counter \<Rightarrow> 'k counter" where
  "incr k [] = [(k, 1)]"
| "incr k ((k', v) # c) = (if k = k' then (k', v + 1) # c else (k', v) # incr k c)"

text \<open>\<open>Counter.update(iterable)\<close>: one increment per element, in order.\<close>

fun update :: "'k counter \<Rightarrow> 'k list \<Rightarrow> 'k counter" where
  "update c [] = c"
| "update c (x # xs) = update (incr x c) xs"

text \<open>\<open>counter.values()\<close>, \<open>counter.keys()\<close>, \<open>len(counter)\<close> and \<open>counter[k]\<close>
  (a missing key reads as 0).\<close>

definition values_of :: "'k counter \<Rightarrow> int list" where
  "values_of c = map snd c"

definition keys_of :: "'k counter \<Rightarrow> 'k list" where
  "keys_of c = map fst c"

definition len :: "'k counter \<Rightarrow> nat" where
  "len c = length c"

definition cget :: "'k counter \<Rightarrow> 'k \<Rightarrow> int" where
  "cget c k = (case map_of c k of None \<Rightarrow> 0 | Some v \<Rightarrow> v)"

text \<open>Equality of dictionaries (\<open>==\<close> in Python) ignores the insertion order: the same
  keys with the same values.\<close>

definition dict_eq :: "'k counter \<Rightarrow> 'k counter \<Rightarrow> bool" where
  "dict_eq a b = (map_of a = map_of b)"

section \<open>Chinese.py: the streaming pipeline\<close>

record pipeline =
  char_counter :: "nat counter"
  word_counter :: "str counter"
  sentence_counter :: "str counter"
  total_chars :: int
  total_words :: int
  total_sentences :: int

text \<open>\<open>ProcessingPipeline.__init__\<close>\<close>

definition init_pipeline :: pipeline where
  "init_pipeline = \<lparr>char_counter = [], word_counter = [], sentence_counter = [],
     total_chars = 0, total_words = 0, total_sentences = 0\<rparr>"

text \<open>The full stop U+3002 and the ideograph range U+4E00..U+9FA5 of the cleaning pattern.\<close>

definition full_stop :: nat where
  "full_stop = 0x3002"

definition is_han :: "nat \<Rightarrow> bool" where
  "is_han c = (0x4e00 \<le> c \<and> c \<le> 0x9fa5)"

text \<open>\<open>re.sub\<close>: every character outside the class is deleted.\<close>

definition clean :: "str \<Rightarrow> str" where
  "clean t = filter (\<lambda>c. is_han c \<or> c = full_stop) t"

text \<open>\<open>text.replace(stop, '')\<close>\<close>

definition remove_stops :: "str \<Rightarrow> str" where
  "remove_stops t = filter (\<lambda>c. c \<noteq> full_stop) t"

text \<open>\<open>text.split(sep)\<close> for a separator of one character: one fragment more than there
  are separators, the empty text gives one empty fragment.\<close>

fun str_split :: "'a \<Rightarrow> 'a list \<Rightarrow> 'a list list" where
  "str_split sep [] = [[]]"
| "str_split sep (c # cs) =
     (if c = sep then [] # str_split sep cs
      else (case str_split sep cs of [] \<Rightarrow> [[c]] | f # fs \<Rightarrow> (c # f) # fs))"

definition count_chars :: "pipeline \<Rightarrow> str \<Rightarrow> pipeline" where
  "count_chars s t =
     (let chars = remove_stops t
      in s\<lparr>char_counter := update (char_counter s) chars,
           total_chars := total_chars s + int (length chars)\<rparr>)"

definition count_words :: "pipeline \<Rightarrow> str list \<Rightarrow> pipeline" where
  "count_words s ws =
     s\<lparr>word_counter := update (word_counter s) ws,
       total_words := total_words s + int (length ws)\<rparr>"

definition count_sentences :: "pipeline \<Rightarrow> str list \<Rightarrow> pipeline" where
  "count_sentences s sentences =
     s\<lparr>sentence_counter := update (sentence_counter s) sentences,
       total_sentences := total_sentences s + int (length sentences)\<rparr>"

text \<open>The sentences of a block: \<open>[s for s in text.split(stop) if s]\<close> on the cleaned text.\<close>

definition sentences_of :: "str \<Rightarrow> str list" where
  "sentences_of t = filter (\<lambda>s. s \<noteq> []) (str_split full_stop t)"

text \<open>\<open>process_text\<close>. The segmenter \<open>jieba.lcut\<close> is an external library: it is the
  parameter \<open>lcut\<close>.\<close>

definition process_text :: "(str \<Rightarrow> str list) \<Rightarrow> pipeline \<Rightarrow> str \<Rightarrow> pipeline" where
  "process_text lcut s block =
     (let t = clean block;
          s1 = count_chars s t;
          s2 = count_sentences s1 (sentences_of t)
      in count_words s2 (lcut (remove_stops t)))"

text \<open>The main loop: one call per block, in order.\<close>

fun run_pipeline :: "(str \<Rightarrow> str list) \<Rightarrow> pipeline \<Rightarrow> str list \<Rightarrow> pipeline" where
  "run_pipeline lcut s [] = s"
| "run_pipeline lcut s (b # bs) = run_pipeline lcut (process_text lcut s b) bs"

section \<open>SHAKESPEARE.py: the analyzer\<close>

record analyzer =
  char_stats :: "nat counter"
  word_stats :: "str counter"
  counts_chars :: int
  counts_words :: int
  counts_files :: int

definition init_analyzer :: analyzer where
  "init_analyzer = \<lparr>char_stats = [], word_stats = [],
     counts_chars = 0, counts_words = 0, counts_files = 0\<rparr>"

text \<open>\<open>str.strip()\<close> removes the leading and trailing white space (\<open>str.isspace\<close>).\<close>

definition is_space :: "nat \<Rightarrow> bool" where
  "is_space c = ((0x09 \<le> c \<and> c \<le> 0x0D) \<or> (0x1C \<le> c \<and> c \<le> 0x20) \<or> c = 0x85 \<or> c = 0xA0
     \<or> c = 0x1680 \<or> (0x2000 \<le> c \<and> c \<le> 0x200A) \<or> c = 0x2028 \<or> c = 0x2029
     \<or> c = 0x202F \<or> c = 0x205F \<or> c = 0x3000)"

definition strip :: "str \<Rightarrow> str" where
  "strip t = rev (dropWhile is_space (rev (dropWhile is_space t)))"

text \<open>\<open>_clean_text\<close>: \<open>text.lower().strip()\<close>. The Unicode lower-casing of the
  runtime is the parameter \<open>lower\<close>.\<close>

definition clean_text :: "(str \<Rightarrow> str) \<Rightarrow> str \<Rightarrow> str" where
  "clean_text lower t = strip (lower t)"

text \<open>The character classes of the two patterns: \<open>[a-z]\<close> and \<open>[a-z']\<close>.\<close>

definition is_lower_letter :: "nat \<Rightarrow> bool" where
  "is_lower_letter c = (97 \<le> c \<and> c \<le> 122)"

definition apostrophe :: nat where
  "apostrophe = 39"

definition in_class :: "nat \<Rightarrow> bool" where
  "in_class c = (is_lower_letter c \<or> c = apostrophe)"

text \<open>\<open>\w\<close> of a Unicode pattern: alphanumeric or underscore. On ASCII that is
  \<open>[0-9A-Za-z_]\<close>; beyond ASCII the Unicode table decides, the parameter \<open>alnum\<close>.\<close>

definition is_word_char :: "(nat \<Rightarrow> bool) \<Rightarrow> nat \<Rightarrow> bool" where
  "is_word_char alnum c =
     (if c < 128
      then (48 \<le> c \<and> c \<le> 57) \<or> (65 \<le> c \<and> c \<le> 90) \<or> c = 95 \<or> (97 \<le> c \<and> c \<le> 122)
      else alnum c)"

text \<open>Whether position \<open>i\<close> of the text holds a word character (no position outside
  the text does), and the assertion \<open>\b\<close> at position \<open>i\<close>.\<close>

definition word_at :: "(nat \<Rightarrow> bool) \<Rightarrow> str \<Rightarrow> nat \<Rightarrow> bool" where
  "word_at alnum t i = (i < length t \<and> is_word_char alnum (t ! i))"

definition boundary :: "(nat \<Rightarrow> bool) \<Rightarrow> str \<Rightarrow> nat \<Rightarrow> bool" where
  "boundary alnum t i = ((0 < i \<and> word_at alnum t (i - 1)) \<noteq> word_at alnum t i)"

text \<open>The greedy repetition \<open>{2,}\<close> takes the longest run of class characters and gives
  back one character at a time, down to two, until \<open>\b\<close> holds at the end.\<close>

fun backtrack :: "(nat \<Rightarrow> bool) \<Rightarrow> str \<Rightarrow> nat \<Rightarrow> nat \<Rightarrow> nat option" where
  "backtrack alnum t i 0 = None"
| "backtrack alnum t i (Suc k) =
     (if Suc k < 2 then None
      else if boundary alnum t (i + Suc k) then Some (i + Suc k)
      else backtrack alnum t i k)"

definition match_at :: "(nat \<Rightarrow> bool) \<Rightarrow> str \<Rightarrow> nat \<Rightarrow> nat option" where
  "match_at alnum t i =
     (if boundary alnum t i
      then backtrack alnum t i (length (takeWhile in_class (drop i t)))
      else None)"

lemma backtrack_gt: "backtrack alnum t i k = Some j \<Longrightarrow> i < j"
  by (induction k) (auto split: if_splits)

text \<open>The scan of \<open>re.finditer\<close>: the leftmost match from the current position, then
  on from its end; without a match, on from the next position.\<close>

function finditer :: "(nat \<Rightarrow> bool) \<Rightarrow> str \<Rightarrow> nat \<Rightarrow> (nat \<times> nat) list" where
  "finditer alnum t i =
     (if length t < i then []
      else (case match_at alnum t i of
              Some j \<Rightarrow> (i, j) # finditer alnum t j
            | None \<Rightarrow> finditer alnum t (i + 1)))"
  by pat_completeness auto
termination
proof (relation "measure (\<lambda>(alnum, t, i). length t + 1 - i)")
  show "wf (measure (\<lambda>(alnum, t, i). length t + 1 - i))" by simp
next
  fix alnum :: "nat \<Rightarrow> bool" and t :: str and i j :: nat
  assume "\<not> length t < i" and "match_at alnum t i = Some j"
  then have "i < j"
    by (auto simp: match_at_def dest: backtrack_gt split: if_splits)
  with \<open>\<not> length t < i\<close>
  show "((alnum, t, j), (alnum, t, i)) \<in> measure (\<lambda>(alnum, t, i). length t + 1 - i)"
    by simp
next
  fix alnum :: "nat \<Rightarrow> bool" and t :: str and i :: nat
  assume "\<not> length t < i"
  then show "((alnum, t, i + 1), (alnum, t, i)) \<in> measure (\<lambda>(alnum, t, i). length t + 1 - i)"
    by simp
qed

text \<open>\<open>re.findall(r"\b[a-z']{2,}\b", text)\<close>: the matched slices \<open>text[i:j]\<close>.\<close>

definition slice :: "str \<Rightarrow> nat \<times> nat \<Rightarrow> str" where
  "slice t ij = take (snd ij - fst ij) (drop (fst ij) t)"

definition findall_words :: "(nat \<Rightarrow> bool) \<Rightarrow> str \<Rightarrow> str list" where
  "findall_words alnum t = map (slice t) (finditer alnum t 0)"

text \<open>\<open>re.findall(r'[a-z]', text)\<close>\<close>

definition findall_letters :: "str \<Rightarrow> str" where
  "findall_letters t = filter is_lower_letter t"

definition analyze_chars :: "analyzer \<Rightarrow> str \<Rightarrow> analyzer" where
  "analyze_chars s t =
     (let chars = findall_letters t
      in s\<lparr>char_stats := update (char_stats s) chars,
           counts_chars := counts_chars s + int (length chars)\<rparr>)"

definition analyze_words :: "(nat \<Rightarrow> bool) \<Rightarrow> analyzer \<Rightarrow> str \<Rightarrow> analyzer" where
  "analyze_words alnum s t =
     (let ws = findall_words alnum t
      in s\<lparr>word_stats := update (word_stats s) ws,
           counts_words := counts_words s + int (length ws)\<rparr>)"

definition process :: "(str \<Rightarrow> str) \<Rightarrow> (nat \<Rightarrow> bool) \<Rightarrow> analyzer \<Rightarrow> str \<Rightarrow> analyzer" where
  "process lower alnum s block =
     (let cleaned = clean_text lower block;
          s1 = analyze_chars s cleaned;
          s2 = analyze_words alnum s1 cleaned
      in s2\<lparr>counts_files := counts_files s2 + 1\<rparr>)"

fun run_analyzer :: "(str \<Rightarrow> str) \<Rightarrow> (nat \<Rightarrow> bool) \<Rightarrow> analyzer \<Rightarrow> str list \<Rightarrow> analyzer" where
  "run_analyzer lower alnum s [] = s"
| "run_analyzer lower alnum s (b # bs) = run_analyzer lower alnum (process lower alnum s b) bs"

section \<open>Counters\<close>

lemma sum_values_incr: "sum_list (values_of (incr k c)) = sum_list (values_of c) + 1"
  by (induction c) (auto simp: values_of_def)

lemma sum_values_update:
  "sum_list (values_of (update c xs)) = sum_list (values_of c) + int (length xs)"
  by (induction xs arbitrary: c) (simp_all add: sum_values_incr)

section \<open>The totals are the sums of the tables\<close>

definition pipeline_inv :: "pipeline \<Rightarrow> bool" where
  "pipeline_inv s =
     (total_chars s = sum_list (values_of (char_counter s)) \<and>
      total_words s = sum_list (values_of (word_counter s)) \<and>
      total_sentences s = sum_list (values_of (sentence_counter s)))"

definition analyzer_inv :: "analyzer \<Rightarrow> bool" where
  "analyzer_inv a =
     (counts_chars a = sum_list (values_of (char_stats a)) \<and>
      counts_words a = sum_list (values_of (word_stats a)))"

lemma pipeline_inv_init: "pipeline_inv init_pipeline"
  by (simp add: pipeline_inv_def init_pipeline_def values_of_def)

lemma pipeline_inv_step: "pipeline_inv s \<Longrightarrow> pipeline_inv (process_text lcut s b)"
  by (simp add: pipeline_inv_def process_text_def count_chars_def count_words_def
      count_sentences_def Let_def sum_values_update)

lemma pipeline_inv_run: "pipeline_inv s \<Longrightarrow> pipeline_inv (run_pipeline lcut s bs)"
  by (induction bs arbitrary: s) (simp_all add: pipeline_inv_step)

lemma analyzer_inv_init: "analyzer_inv init_analyzer"
  by (simp add: analyzer_inv_def init_analyzer_def values_of_def)

lemma analyzer_inv_step: "analyzer_inv a \<Longrightarrow> analyzer_inv (process lower alnum a b)"
  by (simp add: analyzer_inv_def process_def analyze_chars_def analyze_words_def
      Let_def sum_values_update)

lemma analyzer_inv_run: "analyzer_inv a \<Longrightarrow> analyzer_inv (run_analyzer lower alnum a bs)"
  by (induction bs arbitrary: a) (simp_all add: analyzer_inv_step)

text \<open>
  C1. After every call of the accumulator, that is after any sequence of blocks fed to a
  fresh accumulator, each running total equals the sum of the counts of its table:
  characters, words and sentences in the pipeline of Chinese.py; characters and words in
  the analyzer of SHAKESPEARE.py, which keeps no sentence table.
\<close>

theorem totals_equal_table_sums:
  "total_chars (run_pipeline lcut init_pipeline bs)
     = sum_list (values_of (char_counter (run_pipeline lcut init_pipeline bs))) \<and>
   total_words (run_pipeline lcut init_pipeline bs)
     = sum_list (values_of (word_counter (run_pipeline lcut init_pipeline bs))) \<and>
   total_sentences (run_pipeline lcut init_pipeline bs)
     = sum_list (values_of (sentence_counter (run_pipeline lcut init_pipeline bs))) \<and>
   counts_chars (run_analyzer lower alnum init_analyzer bs)
     = sum_list (values_of (char_stats (run_analyzer lower alnum init_analyzer bs))) \<and>
   counts_words (run_analyzer lower alnum init_analyzer bs)
     = sum_list (values_of (word_stats (run_analyzer lower alnum init_analyzer bs)))"
proof -
  have "pipeline_inv (run_pipeline lcut init_pipeline bs)"
    by (rule pipeline_inv_run [OF pipeline_inv_init])
  moreover have "analyzer_inv (run_analyzer lower alnum init_analyzer bs)"
    by (rule analyzer_inv_run [OF analyzer_inv_init])
  ultimately show ?thesis
    by (simp add: pipeline_inv_def analyzer_inv_def)
qed

section \<open>The entropy estimator\<close>

text \<open>
  The estimator computes in the floating-point arithmetic of the runtime, which is not
  part of the repository. The operations that the loop uses are the parameter \<open>ar\<close>:
  \<^item> \<open>float_of_int\<close>, the conversion that \<open>int + float\<close> and \<open>float * int\<close> apply to
    their integer operand; \<open>None\<close> when it raises \<open>OverflowError\<close>;
  \<^item> \<open>fadd\<close>, \<open>fsub\<close>, \<open>fmul\<close> and the unary minus \<open>fneg\<close>, which never raise;
  \<^item> \<open>fdiv\<close>, the division; \<open>None\<close> when it raises \<open>ZeroDivisionError\<close>;
  \<^item> \<open>flog2\<close>, \<open>math.log2\<close>; \<open>None\<close> when it raises \<open>ValueError\<close>;
  \<^item> \<open>fzero\<close> and \<open>f1e_10\<close>, the values of the literals \<open>0.0\<close> and \<open>1e-10\<close>.
\<close>

datatype py_error = OverflowError | ZeroDivisionError | ValueError

record 'f arith =
  float_of_int :: "int \<Rightarrow> 'f option"
  fadd :: "'f \<Rightarrow> 'f \<Rightarrow> 'f"
  fsub :: "'f \<Rightarrow> 'f \<Rightarrow> 'f"
  fmul :: "'f \<Rightarrow> 'f \<Rightarrow> 'f"
  fneg :: "'f \<Rightarrow> 'f"
  fdiv :: "'f \<Rightarrow> 'f \<Rightarrow> 'f option"
  flog2 :: "'f \<Rightarrow> 'f option"
  fzero :: 'f
  f1e_10 :: 'f

text \<open>The loop over \<open>counter.values()\<close>, the same in both files:
  \<open>prob = (count + alpha) / (total + alpha * len(counter))\<close>, then
  \<open>entropy -= prob * math.log2(prob)\<close>. The operands are evaluated from left to right:
  \<open>count\<close> is converted first, then \<open>len(counter)\<close>, then \<open>total\<close>.\<close>

fun entropy_loop ::
  "'f arith \<Rightarrow> 'k counter \<Rightarrow> int \<Rightarrow> 'f \<Rightarrow> int list \<Rightarrow> 'f \<Rightarrow> py_error + 'f" where
  "entropy_loop ar counter tot alpha [] entropy = Inr entropy"
| "entropy_loop ar counter tot alpha (cnt # rest) entropy =
     (case float_of_int ar cnt of
        None \<Rightarrow> Inl OverflowError
      | Some c \<Rightarrow>
     (case float_of_int ar (int (len counter)) of
        None \<Rightarrow> Inl OverflowError
      | Some n \<Rightarrow>
     (case float_of_int ar tot of
        None \<Rightarrow> Inl OverflowError
      | Some t \<Rightarrow>
     (case fdiv ar (fadd ar c alpha) (fadd ar t (fmul ar alpha n)) of
        None \<Rightarrow> Inl ZeroDivisionError
      | Some prob \<Rightarrow>
     (case flog2 ar prob of
        None \<Rightarrow> Inl ValueError
      | Some l \<Rightarrow>
          entropy_loop ar counter tot alpha rest (fsub ar entropy (fmul ar prob l)))))))"

text \<open>Chinese.py: \<open>calculate_entropy(counter, total, alpha=1e-5)\<close>, with \<open>entropy = 0.0\<close>
  at the start.\<close>

definition calculate_entropy :: "'f arith \<Rightarrow> 'k counter \<Rightarrow> int \<Rightarrow> 'f \<Rightarrow> py_error + 'f" where
  "calculate_entropy ar counter tot alpha =
     entropy_loop ar counter tot alpha (values_of counter) (fzero ar)"

text \<open>SHAKESPEARE.py: \<open>calculate_entropy(counter, total_count)\<close> with the constant
  \<open>smoothing = 1e-10\<close>.\<close>

definition calculate_entropy_sh :: "'f arith \<Rightarrow> 'k counter \<Rightarrow> int \<Rightarrow> py_error + 'f" where
  "calculate_entropy_sh ar counter total_count =
     entropy_loop ar counter total_count (f1e_10 ar) (values_of counter) (fzero ar)"

text \<open>The estimator as the specification words it, in the same arithmetic: the smoothed
  probability \<open>p = (c + alpha) / (total + alpha * |table|)\<close> of a unit with raw count
  \<open>c\<close>, its term \<open>-p * log2(p)\<close>, and the terms of the units accumulated from \<open>0.0\<close> in
  the order of the table. A term is undefined where an operation raises; the first
  undefined term is the result.\<close>

definition smoothed_prob ::
  "'f arith \<Rightarrow> 'k counter \<Rightarrow> int \<Rightarrow> 'f \<Rightarrow> int \<Rightarrow> py_error + 'f" where
  "smoothed_prob ar table tot alpha c =
     (case float_of_int ar c of
        None \<Rightarrow> Inl OverflowError
      | Some c' \<Rightarrow>
     (case float_of_int ar (int (length table)) of
        None \<Rightarrow> Inl OverflowError
      | Some n \<Rightarrow>
     (case float_of_int ar tot of
        None \<Rightarrow> Inl OverflowError
      | Some t \<Rightarrow>
     (case fdiv ar (fadd ar c' alpha) (fadd ar t (fmul ar alpha n)) of
        None \<Rightarrow> Inl ZeroDivisionError
      | Some p \<Rightarrow> Inr p))))"

definition entropy_term ::
  "'f arith \<Rightarrow> 'k counter \<Rightarrow> int \<Rightarrow> 'f \<Rightarrow> int \<Rightarrow> py_error + 'f" where
  "entropy_term ar table tot alpha c =
     (case smoothed_prob ar table tot alpha c of
        Inl e \<Rightarrow> Inl e
      | Inr p \<Rightarrow>
          (case flog2 ar p of
             None \<Rightarrow> Inl ValueError
           | Some l \<Rightarrow> Inr (fmul ar (fneg ar p) l)))"

fun accumulate :: "'f arith \<Rightarrow> 'f \<Rightarrow> (py_error + 'f) list \<Rightarrow> py_error + 'f" where
  "accumulate ar s [] = Inr s"
| "accumulate ar s (Inl e # ts) = Inl e"
| "accumulate ar s (Inr x # ts) = accumulate ar (fadd ar s x) ts"

definition entropy_spec :: "'f arith \<Rightarrow> 'k counter \<Rightarrow> int \<Rightarrow> 'f \<Rightarrow> py_error + 'f" where
  "entropy_spec ar table tot alpha =
     accumulate ar (fzero ar) (map (\<lambda>(u, c). entropy_term ar table tot alpha c) table)"

text \<open>Exact arithmetic: the operations on real numbers, without rounding, overflow or
  underflow. Division by zero and the logarithm of a number that is not positive are
  undefined.\<close>

definition exact_arith :: "real arith" where
  "exact_arith =
     \<lparr>float_of_int = (\<lambda>n. Some (real_of_int n)),
      fadd = (\<lambda>a b. a + b), fsub = (\<lambda>a b. a - b), fmul = (\<lambda>a b. a * b),
      fneg = (\<lambda>a. - a),
      fdiv = (\<lambda>a b. if b = 0 then None else Some (a / b)),
      flog2 = (\<lambda>x. if x \<le> 0 then None else Some (log 2 x)),
      fzero = 0, f1e_10 = 1 / 10 ^ 10\<rparr>"



text \<open>
  C3. On the empty table the estimator returns 0.0 and raises nothing, whatever the
  arithmetic, the total and the smoothing parameter; in particular
  \<open>entropy({}, 0, 1e-5) == 0.0\<close>.
\<close>

theorem entropy_empty_table:
  "calculate_entropy ar [] tot alpha = Inr (fzero ar) \<and>
   calculate_entropy_sh ar [] tot = Inr (fzero ar) \<and>
   calculate_entropy exact_arith [] 0 (1 / 10 ^ 5) = Inr 0 \<and>
   calculate_entropy_sh exact_arith [] tot = Inr 0"
  by (simp add: calculate_entropy_def calculate_entropy_sh_def values_of_def exact_arith_def)

lemma entropy_loop_accumulate:
  assumes law: "\<forall>e p l. fsub ar e (fmul ar p l) = fadd ar e (fmul ar (fneg ar p) l)"
  shows "entropy_loop ar counter tot alpha vs e
           = accumulate ar e (map (entropy_term ar counter tot alpha) vs)"
proof (induction vs arbitrary: e)
  case Nil
  show ?case by simp
next
  case (Cons v vs)
  show ?case
    by (simp add: Cons.IH entropy_term_def smoothed_prob_def len_def law
        split: option.split)
qed

lemma map_over_values: "map (\<lambda>(u, c). g c) xs = map g (map snd xs)"
  by (induction xs) auto

lemma entropy_spec_values:
  "entropy_spec ar table tot alpha
     = accumulate ar (fzero ar) (map (entropy_term ar table tot alpha) (values_of table))"
  by (simp only: entropy_spec_def values_of_def map_over_values)

text \<open>
  C2, as the code has it. In the arithmetic of the runtime, for every table, total and
  \<open>alpha\<close>, the outcome of the estimator is the outcome of the accumulated sum, over the
  units of the table in its order, of \<open>-p * log2(p)\<close>, where
  \<open>p = (c + alpha) / (total + alpha * N)\<close> for a unit of raw count \<open>c\<close> and \<open>N\<close> is the
  number of units of the table: it returns exactly that sum when every term is defined,
  and raises the error of the first undefined term otherwise (an integer too large for
  a float, a zero divisor, a probability that is not positive). This holds for
  \<open>calculate_entropy\<close> of Chinese.py and, with \<open>alpha = 1e-10\<close>, for that of
  SHAKESPEARE.py. The one fact of the arithmetic used is that subtracting a product is
  adding the product with one factor negated.
\<close>

theorem entropy_is_smoothed_sum:
  assumes "\<forall>e p l. fsub ar e (fmul ar p l) = fadd ar e (fmul ar (fneg ar p) l)"
  shows "calculate_entropy ar table tot alpha = entropy_spec ar table tot alpha \<and>
         calculate_entropy_sh ar table tot = entropy_spec ar table tot (f1e_10 ar)"
  using assms
  by (simp add: calculate_entropy_def calculate_entropy_sh_def entropy_loop_accumulate
      entropy_spec_values)

lemma exact_literals: "fzero exact_arith = 0" "f1e_10 exact_arith = 1 / 10 ^ 10"
  by (simp_all add: exact_arith_def)

lemma exact_arith_law:
  "\<forall>e p l. fsub exact_arith e (fmul exact_arith p l)
     = fadd exact_arith e (fmul exact_arith (fneg exact_arith p) l)"
  by (simp add: exact_arith_def)

theorem entropy_is_smoothed_sum_witness:
  "fsub exact_arith 1 (fmul exact_arith 2 3)
     = fadd exact_arith 1 (fmul exact_arith (fneg exact_arith 2) 3) \<and>
   calculate_entropy exact_arith [(1::nat, 2), (2, 1)] 3 (1 / 10 ^ 5)
     = entropy_spec exact_arith [(1::nat, 2), (2, 1)] 3 (1 / 10 ^ 5) \<and>
   calculate_entropy_sh exact_arith [(1::nat, 2), (2, 1)] 3
     = entropy_spec exact_arith [(1::nat, 2), (2, 1)] 3 (1 / 10 ^ 10)"
proof -
  have "fsub exact_arith 1 (fmul exact_arith 2 3)
      = fadd exact_arith 1 (fmul exact_arith (fneg exact_arith 2) 3)"
    by (simp add: exact_arith_def)
  then show ?thesis
    using entropy_is_smoothed_sum [OF exact_arith_law, of "[(1::nat, 2), (2, 1)]" 3 "1 / 10 ^ 5"]
    by (simp add: exact_literals)
qed

text \<open>With \<open>alpha = 0.0\<close> the estimator does not return on a table with a zero count.
  For the table \<open>{x: 1, y: 0}\<close> with total 1 the probability of \<open>y\<close> is \<open>0.0 / 1.0\<close>
  and \<open>math.log2(0.0)\<close> raises \<open>ValueError\<close>; for the table \<open>{x: 0}\<close> with total 0
  the divisor is \<open>0.0\<close> and the division raises \<open>ZeroDivisionError\<close>. No operation of
  these evaluations is rounded.\<close>

theorem entropy_raises_counterexample:
  "calculate_entropy exact_arith [(1::nat, 1), (2, 0)] 1 0 = Inl ValueError \<and>
   calculate_entropy exact_arith [(1::nat, 0)] 0 0 = Inl ZeroDivisionError"
  by (simp add: calculate_entropy_def values_of_def len_def exact_arith_def)





section \<open>Splitting into sentences\<close>

declare finditer.simps [simp del]

lemma keys_of_incr:
  "keys_of (incr k c) = (if k \<in> set (keys_of c) then keys_of c else keys_of c @ [k])"
  by (induction k c rule: incr.induct) (simp_all add: keys_of_def)

lemma keys_incr: "set (keys_of (incr k c)) = insert k (set (keys_of c))"
  by (auto simp: keys_of_incr)

lemma keys_update: "set (keys_of (update c xs)) = set (keys_of c) \<union> set xs"
  by (induction xs arbitrary: c) (auto simp: keys_incr)

lemma str_split_not_Nil: "str_split sep t \<noteq> []"
  by (induction t) (auto split: list.splits)

lemma str_split_append:
  "str_split sep (t @ sep # u) = str_split sep t @ str_split sep u"
proof (induction t)
  case Nil
  show ?case by simp
next
  case (Cons c cs)
  obtain f fs where f: "str_split sep cs = f # fs"
    using str_split_not_Nil [of sep cs] by (cases "str_split sep cs") auto
  show ?case
    using Cons.IH f by simp
qed

lemma concat_str_split: "concat (str_split sep t) = filter (\<lambda>c. c \<noteq> sep) t"
proof (induction t)
  case Nil
  show ?case by simp
next
  case (Cons c cs)
  obtain f fs where f: "str_split sep cs = f # fs"
    using str_split_not_Nil [of sep cs] by (cases "str_split sep cs") auto
  show ?case
    using Cons.IH f by auto
qed

lemma concat_drop_empty: "concat (filter (\<lambda>s. s \<noteq> []) xs) = concat xs"
  by (induction xs) auto

lemma concat_sentences_of: "concat (sentences_of t) = remove_stops t"
  by (simp add: sentences_of_def remove_stops_def concat_drop_empty concat_str_split)

lemma sentences_of_Nil: "sentences_of [] = []"
  by (simp add: sentences_of_def)

lemma sentences_of_append:
  "sentences_of (t @ full_stop # u) = sentences_of t @ sentences_of u"
  by (simp add: sentences_of_def str_split_append)

lemma sentences_of_leading: "sentences_of (full_stop # t) = sentences_of t"
  using sentences_of_append [of "[]" t] by (simp add: sentences_of_Nil)

lemma sentences_of_trailing: "sentences_of (t @ [full_stop]) = sentences_of t"
  using sentences_of_append [of t "[]"] by (simp add: sentences_of_Nil)

lemma sentences_of_adjacent:
  "sentences_of (t @ full_stop # full_stop # u) = sentences_of (t @ full_stop # u)"
  by (simp add: sentences_of_append sentences_of_leading)

lemma clean_append: "clean (t @ u) = clean t @ clean u"
  by (simp add: clean_def)

lemma clean_stop: "clean (full_stop # t) = full_stop # clean t"
  by (simp add: clean_def)

lemma sentence_counter_step:
  "sentence_counter (process_text lcut s b)
     = update (sentence_counter s) (sentences_of (clean b))"
  by (simp add: process_text_def count_chars_def count_words_def count_sentences_def Let_def)

lemma total_sentences_step:
  "total_sentences (process_text lcut s b)
     = total_sentences s + int (length (sentences_of (clean b)))"
  by (simp add: process_text_def count_chars_def count_words_def count_sentences_def Let_def)

lemma no_empty_key_step:
  "[] \<notin> set (keys_of (sentence_counter s)) \<Longrightarrow>
   [] \<notin> set (keys_of (sentence_counter (process_text lcut s b)))"
  by (simp add: sentence_counter_step keys_update sentences_of_def)

lemma no_empty_key_run:
  "[] \<notin> set (keys_of (sentence_counter s)) \<Longrightarrow>
   [] \<notin> set (keys_of (sentence_counter (run_pipeline lcut s bs)))"
  by (induction bs arbitrary: s) (simp_all add: no_empty_key_step)

text \<open>
  C7. The sentences of a block are the fragments of the cleaned text between full stops,
  the empty fragments dropped: together they are the cleaned text without its full
  stops. The sentence table of the pipeline never gets the empty string as a key. A
  leading full stop, a trailing one and a full stop next to another one add no entry
  to the sentence table and leave \<open>total_sentences\<close> as it is without them.
\<close>

theorem sentences_never_empty:
  "sentences_of (clean b) = filter (\<lambda>s. s \<noteq> []) (str_split full_stop (clean b)) \<and>
   concat (sentences_of (clean b)) = remove_stops (clean b) \<and>
   [] \<notin> set (keys_of (sentence_counter (run_pipeline lcut init_pipeline bs))) \<and>
   sentence_counter (process_text lcut s (full_stop # b))
     = sentence_counter (process_text lcut s b) \<and>
   total_sentences (process_text lcut s (full_stop # b))
     = total_sentences (process_text lcut s b) \<and>
   sentence_counter (process_text lcut s (b @ [full_stop]))
     = sentence_counter (process_text lcut s b) \<and>
   total_sentences (process_text lcut s (b @ [full_stop]))
     = total_sentences (process_text lcut s b) \<and>
   sentence_counter (process_text lcut s (b @ full_stop # full_stop # b'))
     = sentence_counter (process_text lcut s (b @ full_stop # b')) \<and>
   total_sentences (process_text lcut s (b @ full_stop # full_stop # b'))
     = total_sentences (process_text lcut s (b @ full_stop # b'))"
proof -
  have "[] \<notin> set (keys_of (sentence_counter init_pipeline))"
    by (simp add: init_pipeline_def keys_of_def)
  then have keys: "[] \<notin> set (keys_of (sentence_counter (run_pipeline lcut init_pipeline bs)))"
    by (rule no_empty_key_run)
  have leading: "sentences_of (clean (full_stop # b)) = sentences_of (clean b)"
    by (simp add: clean_stop sentences_of_leading)
  have "clean (b @ [full_stop]) = clean b @ [full_stop]"
    by (simp add: clean_def)
  then have trailing: "sentences_of (clean (b @ [full_stop])) = sentences_of (clean b)"
    by (simp add: sentences_of_trailing)
  have adjacent: "sentences_of (clean (b @ full_stop # full_stop # b'))
      = sentences_of (clean (b @ full_stop # b'))"
    by (simp add: clean_append clean_stop sentences_of_adjacent)
  have fragments: "sentences_of (clean b)
      = filter (\<lambda>s. s \<noteq> []) (str_split full_stop (clean b))"
    by (simp add: sentences_of_def)
  have whole: "concat (sentences_of (clean b)) = remove_stops (clean b)"
    by (rule concat_sentences_of)
  show ?thesis
    unfolding sentence_counter_step total_sentences_step leading trailing adjacent
    using keys fragments whole by blast
qed

section \<open>The empty block\<close>

lemma finditer_Nil: "finditer alnum [] 0 = []"
proof -
  have "match_at alnum [] 0 = None"
    by (simp add: match_at_def boundary_def word_at_def)
  then have "finditer alnum [] 0 = finditer alnum [] (0 + 1)"
    by (subst finditer.simps) simp
  also have "\<dots> = []"
    by (subst finditer.simps) simp
  finally show ?thesis .
qed

text \<open>
  C9. An empty block changes nothing and raises nothing. In Chinese.py the state after
  \<open>process_text\<close> is the state before (the segmenter returns no word for the empty
  string). In SHAKESPEARE.py both tables and both unit totals are unchanged; the number
  of processed files, which is no unit total, goes up by one.
\<close>

theorem empty_block_noop:
  assumes "lcut [] = []" and "lower [] = []"
  shows "process_text lcut s [] = s \<and>
         char_stats (process lower alnum a []) = char_stats a \<and>
         word_stats (process lower alnum a []) = word_stats a \<and>
         counts_chars (process lower alnum a []) = counts_chars a \<and>
         counts_words (process lower alnum a []) = counts_words a \<and>
         counts_files (process lower alnum a []) = counts_files a + 1"
  using assms
  by (simp add: process_text_def count_chars_def count_words_def count_sentences_def
      clean_def remove_stops_def sentences_of_def process_def analyze_chars_def
      analyze_words_def clean_text_def strip_def findall_letters_def findall_words_def
      finditer_Nil Let_def)

theorem empty_block_noop_witness:
  "(\<lambda>t. map (\<lambda>c. [c]) t) ([] :: str) = [] \<and> (\<lambda>t. t) ([] :: str) = [] \<and>
   process_text (\<lambda>t. map (\<lambda>c. [c]) t) init_pipeline [] = init_pipeline \<and>
   char_stats (process (\<lambda>t. t) (\<lambda>c. False) init_analyzer []) = char_stats init_analyzer \<and>
   word_stats (process (\<lambda>t. t) (\<lambda>c. False) init_analyzer []) = word_stats init_analyzer \<and>
   counts_chars (process (\<lambda>t. t) (\<lambda>c. False) init_analyzer []) = counts_chars init_analyzer \<and>
   counts_words (process (\<lambda>t. t) (\<lambda>c. False) init_analyzer []) = counts_words init_analyzer \<and>
   counts_files (process (\<lambda>t. t) (\<lambda>c. False) init_analyzer []) = counts_files init_analyzer + 1"
  using empty_block_noop [of "\<lambda>t. map (\<lambda>c. [c]) t" "\<lambda>t. t" init_pipeline "\<lambda>c. False" init_analyzer]
  by simp

section \<open>Characters and sentences of the pipeline\<close>

text \<open>The number of characters held by a sentence table: the sum of \<open>len(s) * c\<close> over
  its entries \<open>(s, c)\<close>.\<close>

definition sentence_chars :: "str counter \<Rightarrow> int" where
  "sentence_chars c = (\<Sum>(s, n) \<leftarrow> c. int (length s) * n)"

lemma sentence_chars_incr: "sentence_chars (incr k c) = sentence_chars c + int (length k)"
  by (induction k c rule: incr.induct) (simp_all add: sentence_chars_def algebra_simps)

lemma sentence_chars_update:
  "sentence_chars (update c xs) = sentence_chars c + int (length (concat xs))"
  by (induction xs arbitrary: c) (simp_all add: sentence_chars_incr)

lemma total_chars_step:
  "total_chars (process_text lcut s b)
     = total_chars s + int (length (remove_stops (clean b)))"
  by (simp add: process_text_def count_chars_def count_words_def count_sentences_def Let_def)

lemma chars_sentences_step:
  "total_chars s = sentence_chars (sentence_counter s) \<Longrightarrow>
   total_chars (process_text lcut s b)
     = sentence_chars (sentence_counter (process_text lcut s b))"
  by (simp add: total_chars_step sentence_counter_step sentence_chars_update
      concat_sentences_of)

lemma chars_sentences_run:
  "total_chars s = sentence_chars (sentence_counter s) \<Longrightarrow>
   total_chars (run_pipeline lcut s bs)
     = sentence_chars (sentence_counter (run_pipeline lcut s bs))"
  by (induction bs arbitrary: s) (simp_all add: chars_sentences_step)

text \<open>
  C10. In the pipeline of Chinese.py, after any sequence of \<open>process_text\<close> calls on a
  fresh pipeline, \<open>total_chars\<close> equals the sum of \<open>len(s) * c\<close> over the entries
  \<open>(s, c)\<close> of the sentence table.
\<close>

theorem total_chars_is_sentence_length_sum:
  "total_chars (run_pipeline lcut init_pipeline bs)
     = sentence_chars (sentence_counter (run_pipeline lcut init_pipeline bs))"
  by (rule chars_sentences_run) (simp add: init_pipeline_def sentence_chars_def)

section \<open>The rank-frequency series\<close>

text \<open>\<open>sorted(values, reverse=True)\<close>: a stable sort into descending order.\<close>

definition sorted_desc :: "int list \<Rightarrow> int list" where
  "sorted_desc xs = sort_key (\<lambda>v. - v) xs"

text \<open>\<open>np.arange(start, stop)\<close> on natural numbers.\<close>

definition arange :: "nat \<Rightarrow> nat \<Rightarrow> nat list" where
  "arange start stop = [start..<stop]"

text \<open>The pair built for \<open>char_zipf\<close> and \<open>word_zipf\<close> in Chinese.py and plotted by
  \<open>create_plots\<close> in SHAKESPEARE.py:
  \<open>(np.arange(1, len(counter) + 1), sorted(counter.values(), reverse=True))\<close>.\<close>

definition zipf :: "'k counter \<Rightarrow> nat list \<times> int list" where
  "zipf counter = (arange 1 (len counter + 1), sorted_desc (values_of counter))"

lemma sorted_desc_sorted: "sorted_wrt (\<lambda>x y. y \<le> x) (sorted_desc xs)"
proof -
  have "sorted (map (\<lambda>v. - v) (sorted_desc xs))"
    unfolding sorted_desc_def by (rule sorted_sort_key)
  then show ?thesis
    by (simp add: sorted_map)
qed

lemma mset_sorted_desc: "mset (sorted_desc xs) = mset xs"
  by (simp add: sorted_desc_def)

lemma sum_list_sorted_desc: "sum_list (sorted_desc xs) = sum_list xs"
  using mset_sorted_desc [of xs] by (metis sum_mset_sum_list)

lemma length_sorted_desc: "length (sorted_desc xs) = length xs"
  by (simp add: sorted_desc_def)

lemma distinct_keys_incr: "distinct (keys_of c) \<Longrightarrow> distinct (keys_of (incr k c))"
  by (simp add: keys_of_incr)

lemma card_keys: "distinct (keys_of c) \<Longrightarrow> card (set (keys_of c)) = len c"
  using distinct_card [of "keys_of c"] by (simp add: keys_of_def len_def)

text \<open>
  C5. The frequency sequence of the rank-frequency pair is non-increasing, is a
  rearrangement of the counts of the table, has as many elements as the table has
  units (its keys being distinct, the number of distinct units) and sums to the sum of
  the counts of the table; the rank sequence is 1..N, of the same length.
\<close>

theorem zipf_rank_frequency:
  "sorted_wrt (\<lambda>x y. y \<le> x) (snd (zipf c)) \<and>
   mset (snd (zipf c)) = mset (values_of c) \<and>
   length (snd (zipf c)) = len c \<and>
   (distinct (keys_of c) \<longrightarrow> length (snd (zipf c)) = card (set (keys_of c))) \<and>
   sum_list (snd (zipf c)) = sum_list (values_of c) \<and>
   fst (zipf c) = [1..<len c + 1] \<and>
   length (fst (zipf c)) = length (snd (zipf c))"
proof -
  have freq: "snd (zipf c) = sorted_desc (values_of c)"
    and rank: "fst (zipf c) = [1..<len c + 1]"
    by (simp_all add: zipf_def arange_def)
  have n: "length (sorted_desc (values_of c)) = len c"
    by (simp add: length_sorted_desc values_of_def len_def)
  have "length [1..<len c + 1] = len c"
    by simp
  then show ?thesis
    unfolding freq rank
    using n card_keys [of c]
    by (simp add: sorted_desc_sorted mset_sorted_desc sum_list_sorted_desc)
qed

theorem zipf_rank_frequency_witness:
  "distinct (keys_of [(7::nat, 2), (8, 5), (9, 2)]) \<and>
   zipf [(7::nat, 2), (8, 5), (9, 2)] = ([1, 2, 3], [5, 2, 2]) \<and>
   sorted_wrt (\<lambda>x y. y \<le> x) (snd (zipf [(7::nat, 2), (8, 5), (9, 2)])) \<and>
   length (snd (zipf [(7::nat, 2), (8, 5), (9, 2)])) = card (set (keys_of [(7::nat, 2), (8, 5), (9, 2)])) \<and>
   sum_list (snd (zipf [(7::nat, 2), (8, 5), (9, 2)])) = 9"
  using zipf_rank_frequency [of "[(7::nat, 2), (8, 5), (9, 2)]"]
  by (simp add: keys_of_def values_of_def zipf_def arange_def sorted_desc_def len_def upt_rec)

section \<open>Order of accumulation\<close>

definition pipeline_eq :: "pipeline \<Rightarrow> pipeline \<Rightarrow> bool" where
  "pipeline_eq s s' =
     (dict_eq (char_counter s) (char_counter s') \<and>
      dict_eq (word_counter s) (word_counter s') \<and>
      dict_eq (sentence_counter s) (sentence_counter s') \<and>
      total_chars s = total_chars s' \<and>
      total_words s = total_words s' \<and>
      total_sentences s = total_sentences s')"

definition analyzer_eq :: "analyzer \<Rightarrow> analyzer \<Rightarrow> bool" where
  "analyzer_eq a a' =
     (dict_eq (char_stats a) (char_stats a') \<and>
      dict_eq (word_stats a) (word_stats a') \<and>
      counts_chars a = counts_chars a' \<and>
      counts_words a = counts_words a' \<and>
      counts_files a = counts_files a')"

lemma map_of_incr: "map_of (incr k c) = (map_of c)(k \<mapsto> cget c k + 1)"
  by (induction k c rule: incr.induct) (auto simp: cget_def)

lemma cget_incr: "cget (incr k c) k' = cget c k' + (if k = k' then 1 else 0)"
  by (simp add: cget_def map_of_incr)

lemma cget_update: "cget (update c xs) k = cget c k + int (count_list xs k)"
  by (induction xs arbitrary: c) (simp_all add: cget_incr)

lemma map_of_cget:
  "map_of c k = (if k \<in> set (keys_of c) then Some (cget c k) else None)"
proof (cases "k \<in> set (keys_of c)")
  case True
  then have "map_of c k \<noteq> None"
    by (simp add: keys_of_def map_of_eq_None_iff)
  with True show ?thesis
    by (auto simp: cget_def)
next
  case False
  then have "map_of c k = None"
    by (simp add: keys_of_def map_of_eq_None_iff)
  with False show ?thesis
    by simp
qed

lemma update_append: "update c (xs @ ys) = update (update c xs) ys"
  by (induction xs arbitrary: c) simp_all

lemma dict_eq_update:
  assumes "mset xs = mset ys"
  shows "dict_eq (update c xs) (update c ys)"
proof -
  have "set xs = set ys"
    using assms by (rule mset_eq_setD)
  moreover have "count_list xs k = count_list ys k" for k
    using assms by (metis count_mset)
  ultimately have "map_of (update c xs) k = map_of (update c ys) k" for k
    by (simp add: map_of_cget keys_update cget_update)
  then show ?thesis
    by (auto simp: dict_eq_def)
qed

lemma mset_concat_map:
  assumes "mset bs = mset bs'"
  shows "mset (concat (map f bs)) = mset (concat (map f bs'))"
proof -
  have "mset (concat (map f xs)) = (\<Sum>b\<in>#mset xs. mset (f b))" for xs :: "'a list"
    by (induction xs) simp_all
  then show ?thesis
    using assms by simp
qed

text \<open>What a run adds to each table and total, as a function of the list of blocks.\<close>

lemma run_pipeline_append:
  "run_pipeline lcut s (bs @ bs') = run_pipeline lcut (run_pipeline lcut s bs) bs'"
  by (induction bs arbitrary: s) simp_all

lemma run_analyzer_append:
  "run_analyzer lower alnum a (bs @ bs')
     = run_analyzer lower alnum (run_analyzer lower alnum a bs) bs'"
  by (induction bs arbitrary: a) simp_all

lemma run_pipeline_tables:
  "char_counter (run_pipeline lcut s bs)
     = update (char_counter s) (concat (map (\<lambda>b. remove_stops (clean b)) bs)) \<and>
   word_counter (run_pipeline lcut s bs)
     = update (word_counter s) (concat (map (\<lambda>b. lcut (remove_stops (clean b))) bs)) \<and>
   sentence_counter (run_pipeline lcut s bs)
     = update (sentence_counter s) (concat (map (\<lambda>b. sentences_of (clean b)) bs)) \<and>
   total_chars (run_pipeline lcut s bs)
     = total_chars s + int (length (concat (map (\<lambda>b. remove_stops (clean b)) bs))) \<and>
   total_words (run_pipeline lcut s bs)
     = total_words s + int (length (concat (map (\<lambda>b. lcut (remove_stops (clean b))) bs))) \<and>
   total_sentences (run_pipeline lcut s bs)
     = total_sentences s + int (length (concat (map (\<lambda>b. sentences_of (clean b)) bs)))"
proof (induction bs arbitrary: s)
  case Nil
  show ?case by simp
next
  case (Cons b bs)
  show ?case
    by (simp add: Cons.IH process_text_def count_chars_def count_words_def
        count_sentences_def Let_def update_append)
qed

lemma run_analyzer_tables:
  "char_stats (run_analyzer lower alnum a bs)
     = update (char_stats a) (concat (map (\<lambda>b. findall_letters (clean_text lower b)) bs)) \<and>
   word_stats (run_analyzer lower alnum a bs)
     = update (word_stats a) (concat (map (\<lambda>b. findall_words alnum (clean_text lower b)) bs)) \<and>
   counts_chars (run_analyzer lower alnum a bs)
     = counts_chars a
       + int (length (concat (map (\<lambda>b. findall_letters (clean_text lower b)) bs))) \<and>
   counts_words (run_analyzer lower alnum a bs)
     = counts_words a
       + int (length (concat (map (\<lambda>b. findall_words alnum (clean_text lower b)) bs))) \<and>
   counts_files (run_analyzer lower alnum a bs) = counts_files a + int (length bs)"
proof (induction bs arbitrary: a)
  case Nil
  show ?case by simp
next
  case (Cons b bs)
  show ?case
    by (simp add: Cons.IH process_def analyze_chars_def analyze_words_def Let_def
        update_append)
qed

lemma pipeline_eq_perm:
  assumes "mset bs = mset bs'"
  shows "pipeline_eq (run_pipeline lcut s bs) (run_pipeline lcut s bs')"
proof -
  have m: "mset (concat (map f bs)) = mset (concat (map f bs'))" for f :: "str \<Rightarrow> 'b list"
    using assms by (rule mset_concat_map)
  have l: "length (concat (map f bs)) = length (concat (map f bs'))" for f :: "str \<Rightarrow> 'b list"
    using m [of f] by (rule mset_eq_length)
  show ?thesis
    by (simp add: pipeline_eq_def run_pipeline_tables dict_eq_update m l)
qed

lemma analyzer_eq_perm:
  assumes "mset bs = mset bs'"
  shows "analyzer_eq (run_analyzer lower alnum a bs) (run_analyzer lower alnum a bs')"
proof -
  have m: "mset (concat (map f bs)) = mset (concat (map f bs'))" for f :: "str \<Rightarrow> 'b list"
    using assms by (rule mset_concat_map)
  have l: "length (concat (map f bs)) = length (concat (map f bs'))" for f :: "str \<Rightarrow> 'b list"
    using m [of f] by (rule mset_eq_length)
  have n: "length bs = length bs'"
    using assms by (rule mset_eq_length)
  show ?thesis
    by (simp add: analyzer_eq_def run_analyzer_tables dict_eq_update m l n)
qed

text \<open>
  C4. The final tables and totals do not depend on the batching or on the order of the
  blocks. Feeding the batch \<open>bs1\<close> and then the batch \<open>bs2\<close> is the same run as feeding
  \<open>bs1 @ bs2\<close> in one pass; and whenever \<open>bs\<close> holds the same blocks as \<open>bs1 @ bs2\<close>
  in any order, the two runs end with equal tables (as dictionaries: the same keys with
  the same counts) and equal totals, in Chinese.py and in SHAKESPEARE.py.
\<close>

theorem accumulation_order_independent:
  assumes "mset (bs1 @ bs2) = mset bs"
  shows "run_pipeline lcut (run_pipeline lcut s bs1) bs2 = run_pipeline lcut s (bs1 @ bs2) \<and>
         pipeline_eq (run_pipeline lcut (run_pipeline lcut s bs1) bs2) (run_pipeline lcut s bs) \<and>
         run_analyzer lower alnum (run_analyzer lower alnum a bs1) bs2
           = run_analyzer lower alnum a (bs1 @ bs2) \<and>
         analyzer_eq (run_analyzer lower alnum (run_analyzer lower alnum a bs1) bs2)
           (run_analyzer lower alnum a bs)"
  using pipeline_eq_perm [OF assms, of lcut s] analyzer_eq_perm [OF assms, of lower alnum a]
  by (simp add: run_pipeline_append run_analyzer_append)

theorem accumulation_order_independent_witness:
  "mset ([[0x4e00, 0x3002], [97, 98]] @ [[0x4e01 :: nat]]) = mset [[0x4e01], [0x4e00, 0x3002], [97, 98]] \<and>
   pipeline_eq
     (run_pipeline (\<lambda>t. map (\<lambda>c. [c]) t)
        (run_pipeline (\<lambda>t. map (\<lambda>c. [c]) t) init_pipeline [[0x4e00, 0x3002], [97, 98]]) [[0x4e01]])
     (run_pipeline (\<lambda>t. map (\<lambda>c. [c]) t) init_pipeline [[0x4e01], [0x4e00, 0x3002], [97, 98]]) \<and>
   analyzer_eq
     (run_analyzer (\<lambda>t. t) (\<lambda>c. False)
        (run_analyzer (\<lambda>t. t) (\<lambda>c. False) init_analyzer [[0x4e00, 0x3002], [97, 98]]) [[0x4e01]])
     (run_analyzer (\<lambda>t. t) (\<lambda>c. False) init_analyzer [[0x4e01], [0x4e00, 0x3002], [97, 98]])"
  using accumulation_order_independent
    [of "[[0x4e00, 0x3002], [97, 98]]" "[[0x4e01]]" "[[0x4e01], [0x4e00, 0x3002], [97, 98]]"
        "\<lambda>t. map (\<lambda>c. [c]) t" init_pipeline "\<lambda>t. t" "\<lambda>c. False" init_analyzer]
  by simp

section \<open>The words of the pattern\<close>

text \<open>A span \<open>(q, e)\<close> that the pattern can match: at least two class characters between
  two word boundaries.\<close>

definition candidate :: "(nat \<Rightarrow> bool) \<Rightarrow> str \<Rightarrow> nat \<Rightarrow> nat \<Rightarrow> bool" where
  "candidate alnum t q e =
     (q + 2 \<le> e \<and> e \<le> length t \<and> boundary alnum t q \<and> boundary alnum t e \<and>
      (\<forall>k. q \<le> k \<and> k < e \<longrightarrow> in_class (t ! k)))"

lemma backtrack_Some:
  "backtrack alnum t i k = Some j \<Longrightarrow> i + 2 \<le> j \<and> j \<le> i + k \<and> boundary alnum t j"
  by (induction k) (auto split: if_splits)

lemma backtrack_greedy:
  "i + 2 \<le> e \<Longrightarrow> e \<le> i + k \<Longrightarrow> boundary alnum t e \<Longrightarrow>
   \<exists>j. backtrack alnum t i k = Some j \<and> e \<le> j"
proof (induction k)
  case 0
  then show ?case by simp
next
  case (Suc k)
  show ?case
  proof (cases "boundary alnum t (i + Suc k)")
    case True
    with Suc.prems show ?thesis by auto
  next
    case False
    with Suc.prems have "e \<le> i + k"
      by (cases "e = i + Suc k") auto
    with Suc.IH Suc.prems obtain j where "backtrack alnum t i k = Some j" and "e \<le> j"
      by blast
    with False Suc.prems show ?thesis by auto
  qed
qed

lemma run_in_class:
  assumes "k < length (takeWhile in_class (drop i t))"
  shows "in_class (t ! (i + k))"
proof -
  have "takeWhile in_class (drop i t) ! k \<in> set (takeWhile in_class (drop i t))"
    using assms by (rule nth_mem)
  then have "in_class (takeWhile in_class (drop i t) ! k)"
    by (rule set_takeWhileD [THEN conjunct2])
  moreover have "takeWhile in_class (drop i t) ! k = drop i t ! k"
    using assms by (rule takeWhile_nth)
  moreover have "k < length (drop i t)"
    using assms length_takeWhile_le [of in_class "drop i t"] by (rule less_le_trans)
  ultimately show ?thesis by simp
qed

lemma run_length_le:
  assumes "i \<le> length t"
  shows "i + length (takeWhile in_class (drop i t)) \<le> length t"
proof -
  have "length (takeWhile in_class (drop i t)) \<le> length (drop i t)"
    by (rule length_takeWhile_le)
  with assms show ?thesis by simp
qed

lemma run_maximal:
  assumes "e \<le> length t" and "i \<le> e" and "\<forall>k. i \<le> k \<and> k < e \<longrightarrow> in_class (t ! k)"
  shows "e \<le> i + length (takeWhile in_class (drop i t))"
proof -
  have "e - i \<le> length (takeWhile in_class (drop i t))"
  proof (rule length_takeWhile_less_P_nth)
    fix n assume "n < e - i"
    with assms show "in_class (drop i t ! n)" by simp
  next
    show "e - i \<le> length (drop i t)" using assms by simp
  qed
  with assms show ?thesis by simp
qed

lemma match_at_Some:
  assumes "match_at alnum t i = Some j" and "i \<le> length t"
  shows "candidate alnum t i j"
proof -
  let ?m = "length (takeWhile in_class (drop i t))"
  from assms(1) have b: "boundary alnum t i" and bt: "backtrack alnum t i ?m = Some j"
    by (auto simp: match_at_def split: if_splits)
  from backtrack_Some [OF bt] have j: "i + 2 \<le> j" "j \<le> i + ?m" "boundary alnum t j"
    by auto
  have "j \<le> length t"
    using j(2) run_length_le [OF assms(2)] by simp
  moreover have "in_class (t ! k)" if "i \<le> k" "k < j" for k
    using run_in_class [of "k - i" i t] that j(2) by simp
  ultimately show ?thesis
    using b j by (simp add: candidate_def)
qed

lemma match_at_greedy:
  assumes "candidate alnum t q e"
  shows "\<exists>j. match_at alnum t q = Some j \<and> e \<le> j"
proof -
  from assms have "e \<le> q + length (takeWhile in_class (drop q t))"
    by (intro run_maximal) (auto simp: candidate_def)
  with assms show ?thesis
    by (auto simp: match_at_def candidate_def intro: backtrack_greedy)
qed

lemma candidate_inside_match:
  assumes m: "match_at alnum t p = Some j'" and p: "p \<le> length t"
    and c: "candidate alnum t q e" and q: "p \<le> q" "q < j'"
  shows "e \<le> j'"
proof (rule ccontr)
  assume "\<not> e \<le> j'"
  then have less: "j' < e" by simp
  have cp: "candidate alnum t p j'"
    using m p by (rule match_at_Some)
  have "in_class (t ! k)" if "p \<le> k" "k < e" for k
  proof (cases "k < q")
    case True
    with q that cp show ?thesis by (simp add: candidate_def)
  next
    case False
    with that c show ?thesis by (simp add: candidate_def)
  qed
  with c cp q have "candidate alnum t p e"
    by (simp add: candidate_def)
  then obtain j where "match_at alnum t p = Some j" and "e \<le> j"
    using match_at_greedy by blast
  with m less show False by simp
qed

text \<open>The scan is leftmost and greedy: when it stands at position \<open>p\<close>, no span that the
  pattern can match begins before \<open>p\<close> and ends after it.\<close>

lemma finditer_scan:
  "(\<forall>q e. q < p \<longrightarrow> candidate alnum t q e \<longrightarrow> e \<le> p) \<Longrightarrow>
   (i, j) \<in> set (finditer alnum t p) \<Longrightarrow>
   match_at alnum t i = Some j \<and> i \<le> length t \<and>
   (\<forall>q e. q < i \<longrightarrow> candidate alnum t q e \<longrightarrow> e \<le> i)"
proof (induction alnum t p rule: finditer.induct)
  case (1 alnum t p)
  show ?case
  proof (cases "length t < p")
    case True
    then have "finditer alnum t p = []"
      by (subst finditer.simps) simp
    with "1.prems"(2) show ?thesis by simp
  next
    case False
    then have p: "p \<le> length t" by simp
    show ?thesis
    proof (cases "match_at alnum t p")
      case None
      with False have "finditer alnum t p = finditer alnum t (p + 1)"
        by (subst finditer.simps) simp
      with "1.prems"(2) have mem: "(i, j) \<in> set (finditer alnum t (p + 1))" by simp
      have inv: "\<forall>q e. q < p + 1 \<longrightarrow> candidate alnum t q e \<longrightarrow> e \<le> p + 1"
      proof (intro allI impI)
        fix q e
        assume q: "q < p + 1" and c: "candidate alnum t q e"
        show "e \<le> p + 1"
        proof (cases "q = p")
          case True
          with c None match_at_greedy [of alnum t p e] show ?thesis by simp
        next
          case False
          with q have "q < p" by simp
          with "1.prems"(1) c have "e \<le> p" by blast
          then show ?thesis by simp
        qed
      qed
      from "1.IH"(1) [OF False None inv mem] show ?thesis .
    next
      case (Some j')
      with False have unfolded: "finditer alnum t p = (p, j') # finditer alnum t j'"
        by (subst finditer.simps) simp
      have cp: "candidate alnum t p j'"
        using Some p by (rule match_at_Some)
      show ?thesis
      proof (cases "(i, j) = (p, j')")
        case True
        with Some p "1.prems"(1) show ?thesis by simp
      next
        case False
        with unfolded "1.prems"(2) have mem: "(i, j) \<in> set (finditer alnum t j')" by auto
        have inv: "\<forall>q e. q < j' \<longrightarrow> candidate alnum t q e \<longrightarrow> e \<le> j'"
        proof (intro allI impI)
          fix q e
          assume q: "q < j'" and c: "candidate alnum t q e"
          show "e \<le> j'"
          proof (cases "q < p")
            case True
            with "1.prems"(1) c have "e \<le> p" by blast
            with cp show ?thesis by (simp add: candidate_def)
          next
            case False
            then have "p \<le> q" by simp
            then show ?thesis by (rule candidate_inside_match [OF Some p c _ q])
          qed
        qed
        from "1.IH"(2) [OF \<open>\<not> length t < p\<close> Some inv mem] show ?thesis .
      qed
    qed
  qed
qed

lemma finditer_span:
  assumes "(i, j) \<in> set (finditer alnum t 0)"
  shows "match_at alnum t i = Some j" and "candidate alnum t i j"
    and "\<And>q e. q < i \<Longrightarrow> candidate alnum t q e \<Longrightarrow> e \<le> i"
proof -
  have scan: "match_at alnum t i = Some j \<and> i \<le> length t \<and>
      (\<forall>q e. q < i \<longrightarrow> candidate alnum t q e \<longrightarrow> e \<le> i)"
    using assms by (intro finditer_scan [of 0]) simp_all
  then show "match_at alnum t i = Some j" by simp
  from scan show "candidate alnum t i j" by (simp add: match_at_Some)
  from scan show "\<And>q e. q < i \<Longrightarrow> candidate alnum t q e \<Longrightarrow> e \<le> i" by blast
qed

lemma letter_is_word_char: "is_lower_letter c \<Longrightarrow> is_word_char alnum c"
  by (simp add: is_lower_letter_def is_word_char_def)

lemma apostrophe_no_word_char: "\<not> is_word_char alnum apostrophe"
  by (simp add: apostrophe_def is_word_char_def)

lemma class_cases: "in_class c \<Longrightarrow> \<not> is_lower_letter c \<Longrightarrow> c = apostrophe"
  by (simp add: in_class_def)

lemma apostrophe_no_letter: "\<not> is_lower_letter apostrophe"
  by (simp add: apostrophe_def is_lower_letter_def)

text \<open>An apostrophe at the start of a match stands right after a word character, one
  at its end right before a word character.\<close>

lemma leading_apostrophe:
  assumes "candidate alnum t i j" and "t ! i = apostrophe"
  shows "0 < i \<and> is_word_char alnum (t ! (i - 1))"
proof -
  have "\<not> word_at alnum t i"
    using assms(2) by (simp add: word_at_def apostrophe_no_word_char)
  moreover have "boundary alnum t i"
    using assms(1) by (simp add: candidate_def)
  ultimately show ?thesis
    by (simp add: boundary_def word_at_def)
qed

lemma trailing_apostrophe:
  assumes "candidate alnum t i j" and "t ! (j - 1) = apostrophe"
  shows "j < length t \<and> is_word_char alnum (t ! j)"
proof -
  have "\<not> word_at alnum t (j - 1)"
    using assms(2) by (simp add: word_at_def apostrophe_no_word_char)
  moreover have "boundary alnum t j"
    using assms(1) by (simp add: candidate_def)
  ultimately show ?thesis
    by (auto simp: boundary_def word_at_def)
qed

text \<open>In a text whose word characters are all lower-case letters, a match begins and
  ends with a letter.\<close>

lemma starts_with_letter:
  assumes span: "(i, j) \<in> set (finditer alnum t 0)"
    and only: "\<forall>c\<in>set t. is_word_char alnum c \<longrightarrow> is_lower_letter c"
  shows "is_lower_letter (t ! i)"
proof (rule ccontr)
  assume no: "\<not> is_lower_letter (t ! i)"
  have c: "candidate alnum t i j"
    using span by (rule finditer_span)
  then have ij: "i + 2 \<le> j" "j \<le> length t"
    by (simp_all add: candidate_def)
  have "in_class (t ! i)"
    using c by (simp add: candidate_def)
  with no have "t ! i = apostrophe"
    by (simp add: class_cases)
  with c have before: "0 < i" "is_word_char alnum (t ! (i - 1))"
    using leading_apostrophe by blast+
  have "t ! (i - 1) \<in> set t"
    using before(1) ij by simp
  with only before(2) have letter: "is_lower_letter (t ! (i - 1))"
    by blast
  define Q where "Q q = (q < i \<and> (\<forall>k. q \<le> k \<and> k < i \<longrightarrow> is_lower_letter (t ! k)))" for q
  define q where "q = (LEAST q. Q q)"
  have "Q (i - 1)"
    unfolding Q_def
  proof (intro conjI allI impI)
    show "i - 1 < i" using before(1) by simp
  next
    fix k assume "i - 1 \<le> k \<and> k < i"
    then have "k = i - 1" by linarith
    with letter show "is_lower_letter (t ! k)" by simp
  qed
  then have Qq: "Q q"
    unfolding q_def by (rule LeastI)
  then have qi: "q < i" and run: "\<And>k. q \<le> k \<Longrightarrow> k < i \<Longrightarrow> is_lower_letter (t ! k)"
    by (simp_all add: Q_def)
  have edge: "\<not> is_lower_letter (t ! (q - 1))" if "0 < q"
  proof
    assume l: "is_lower_letter (t ! (q - 1))"
    have "Q (q - 1)"
      unfolding Q_def
    proof (intro conjI allI impI)
      show "q - 1 < i" using qi by simp
    next
      fix k assume k: "q - 1 \<le> k \<and> k < i"
      show "is_lower_letter (t ! k)"
      proof (cases "k = q - 1")
        case True
        with l show ?thesis by simp
      next
        case False
        with k have "q \<le> k" by linarith
        with k show ?thesis by (simp add: run)
      qed
    qed
    then have "q \<le> q - 1"
      unfolding q_def by (rule Least_le)
    with that show False by simp
  qed
  have wq: "word_at alnum t q"
    using qi ij run [of q] by (simp add: word_at_def letter_is_word_char)
  have "\<not> (0 < q \<and> word_at alnum t (q - 1))"
  proof
    assume a: "0 < q \<and> word_at alnum t (q - 1)"
    then have "t ! (q - 1) \<in> set t" and "is_word_char alnum (t ! (q - 1))"
      by (simp_all add: word_at_def)
    with only have "is_lower_letter (t ! (q - 1))" by blast
    with a edge show False by simp
  qed
  with wq have bq: "boundary alnum t q"
    by (simp add: boundary_def)
  have "in_class (t ! k)" if "q \<le> k" "k < j" for k
  proof (cases "k < i")
    case True
    with that run show ?thesis by (simp add: in_class_def)
  next
    case False
    with that c show ?thesis by (simp add: candidate_def)
  qed
  with bq c qi ij have "candidate alnum t q j"
    by (simp add: candidate_def)
  with qi have "j \<le> i"
    by (rule finditer_span(3) [OF span])
  with ij show False by simp
qed

lemma ends_with_letter:
  assumes span: "(i, j) \<in> set (finditer alnum t 0)"
    and only: "\<forall>c\<in>set t. is_word_char alnum c \<longrightarrow> is_lower_letter c"
  shows "is_lower_letter (t ! (j - 1))"
proof (rule ccontr)
  assume no: "\<not> is_lower_letter (t ! (j - 1))"
  have m: "match_at alnum t i = Some j" and c: "candidate alnum t i j"
    using span by (rule finditer_span)+
  then have ij: "i + 2 \<le> j" "j \<le> length t"
    by (simp_all add: candidate_def)
  have "in_class (t ! (j - 1))"
    using c ij by (simp add: candidate_def)
  with no have "t ! (j - 1) = apostrophe"
    by (simp add: class_cases)
  with c have after: "j < length t" "is_word_char alnum (t ! j)"
    using trailing_apostrophe by blast+
  then have "t ! j \<in> set t" by simp
  with only after(2) have letter: "is_lower_letter (t ! j)"
    by blast
  define Q where "Q e = (j < e \<and> (e = length t \<or> \<not> is_lower_letter (t ! e)))" for e
  define e where "e = (LEAST e. Q e)"
  have "Q (length t)"
    using after(1) by (simp add: Q_def)
  then have Qe: "Q e" and el: "e \<le> length t"
    unfolding e_def by (rule LeastI, rule Least_le)
  then have je: "j < e" and stop: "e = length t \<or> \<not> is_lower_letter (t ! e)"
    by (simp_all add: Q_def)
  have run: "is_lower_letter (t ! k)" if "j \<le> k" "k < e" for k
  proof (rule ccontr)
    assume n: "\<not> is_lower_letter (t ! k)"
    with letter that have "j < k" by (cases "k = j") auto
    with n have "Q k" by (simp add: Q_def)
    then have "e \<le> k"
      unfolding e_def by (rule Least_le)
    with that show False by simp
  qed
  have "word_at alnum t (e - 1)"
    using je el run [of "e - 1"] by (simp add: word_at_def letter_is_word_char)
  moreover have "\<not> word_at alnum t e"
  proof
    assume w: "word_at alnum t e"
    then have "t ! e \<in> set t" and "is_word_char alnum (t ! e)"
      by (simp_all add: word_at_def)
    with only have "is_lower_letter (t ! e)" by blast
    with stop w show False by (simp add: word_at_def)
  qed
  ultimately have be: "boundary alnum t e"
    using je by (simp add: boundary_def)
  have "in_class (t ! k)" if "i \<le> k" "k < e" for k
  proof (cases "k < j")
    case True
    with that c show ?thesis by (simp add: candidate_def)
  next
    case False
    with that run show ?thesis by (simp add: in_class_def)
  qed
  with be c je el ij have "candidate alnum t i e"
    by (simp add: candidate_def)
  then obtain j2 where "match_at alnum t i = Some j2" and "e \<le> j2"
    using match_at_greedy by blast
  with m je show False by simp
qed

text \<open>The shape of a word as the specification words it: at least two characters, letters
  and apostrophes only, no apostrophe at either end.\<close>

definition spec_word :: "str \<Rightarrow> bool" where
  "spec_word w =
     (2 \<le> length w \<and> list_all in_class w \<and> is_lower_letter (hd w) \<and> is_lower_letter (last w))"

lemma slice_facts:
  assumes "i < j" and "j \<le> length t"
  shows "length (slice t (i, j)) = j - i"
    and "hd (slice t (i, j)) = t ! i"
    and "last (slice t (i, j)) = t ! (j - 1)"
    and "\<And>k. k < j - i \<Longrightarrow> slice t (i, j) ! k = t ! (i + k)"
proof -
  show len: "length (slice t (i, j)) = j - i"
    using assms by (simp add: slice_def)
  show nth: "slice t (i, j) ! k = t ! (i + k)" if "k < j - i" for k
    using that assms by (simp add: slice_def)
  have ne: "slice t (i, j) \<noteq> []"
    using len assms by auto
  have "hd (slice t (i, j)) = slice t (i, j) ! 0"
    using ne by (simp add: hd_conv_nth)
  with nth [of 0] assms show "hd (slice t (i, j)) = t ! i"
    by simp
  have "last (slice t (i, j)) = slice t (i, j) ! (j - i - 1)"
    using ne len by (simp add: last_conv_nth)
  with nth [of "j - i - 1"] assms show "last (slice t (i, j)) = t ! (j - 1)"
    by simp
qed

lemma slice_in_class:
  assumes "candidate alnum t i j"
  shows "list_all in_class (slice t (i, j))"
proof -
  have ij: "i < j" "j \<le> length t"
    using assms by (simp_all add: candidate_def)
  have "in_class (slice t (i, j) ! k)" if "k < length (slice t (i, j))" for k
  proof -
    have k: "k < j - i"
      using that slice_facts(1) [OF ij] by simp
    then have "in_class (t ! (i + k))"
      using assms by (simp add: candidate_def)
    with slice_facts(4) [OF ij k] show ?thesis by simp
  qed
  then show ?thesis
    by (simp add: list_all_length)
qed

text \<open>
  C8, as the code has it. The words that \<open>_analyze_words\<close> adds to the word table are the
  slices of the matches of the pattern, one word for each match. For every match, the
  word has at least two characters, all of them lower-case letters or apostrophes; its
  first character is an apostrophe only if the character of the text right before the
  match is a word character, and its last character is an apostrophe only if the
  character right after the match is a word character. In a text whose word characters
  are all lower-case letters (no digit, no underscore, no other alphanumeric character)
  every word begins and ends with a letter.
\<close>

theorem extracted_words_shape:
  "set (keys_of (word_stats (analyze_words alnum s t)))
     = set (keys_of (word_stats s)) \<union> set (findall_words alnum t) \<and>
   findall_words alnum t = map (slice t) (finditer alnum t 0) \<and>
   (\<forall>i j. (i, j) \<in> set (finditer alnum t 0) \<longrightarrow>
      i + 2 \<le> j \<and> j \<le> length t \<and>
      2 \<le> length (slice t (i, j)) \<and> list_all in_class (slice t (i, j)) \<and>
      (hd (slice t (i, j)) = apostrophe \<longrightarrow> 0 < i \<and> is_word_char alnum (t ! (i - 1))) \<and>
      (last (slice t (i, j)) = apostrophe \<longrightarrow> j < length t \<and> is_word_char alnum (t ! j)) \<and>
      ((\<forall>c\<in>set t. is_word_char alnum c \<longrightarrow> is_lower_letter c) \<longrightarrow>
         spec_word (slice t (i, j)))) \<and>
   (\<forall>w. w \<in> set (findall_words alnum t) \<longrightarrow>
      2 \<le> length w \<and> list_all in_class w \<and>
      ((\<forall>c\<in>set t. is_word_char alnum c \<longrightarrow> is_lower_letter c) \<longrightarrow> spec_word w))"
proof -
  have keys: "set (keys_of (word_stats (analyze_words alnum s t)))
      = set (keys_of (word_stats s)) \<union> set (findall_words alnum t)"
    by (simp add: analyze_words_def Let_def keys_update)
  have slices: "findall_words alnum t = map (slice t) (finditer alnum t 0)"
    by (simp add: findall_words_def)
  have every_match:
    "i + 2 \<le> j \<and> j \<le> length t \<and>
     2 \<le> length (slice t (i, j)) \<and> list_all in_class (slice t (i, j)) \<and>
     (hd (slice t (i, j)) = apostrophe \<longrightarrow> 0 < i \<and> is_word_char alnum (t ! (i - 1))) \<and>
     (last (slice t (i, j)) = apostrophe \<longrightarrow> j < length t \<and> is_word_char alnum (t ! j)) \<and>
     ((\<forall>c\<in>set t. is_word_char alnum c \<longrightarrow> is_lower_letter c) \<longrightarrow>
        spec_word (slice t (i, j)))"
    if span: "(i, j) \<in> set (finditer alnum t 0)" for i j
  proof -
    have c: "candidate alnum t i j"
      using span by (rule finditer_span)
    then have ij: "i + 2 \<le> j" "j \<le> length t" "i < j"
      by (simp_all add: candidate_def)
    note sl = slice_facts [OF ij(3) ij(2)]
    have len: "2 \<le> length (slice t (i, j))"
      using sl(1) ij by simp
    have cls: "list_all in_class (slice t (i, j))"
      using c by (rule slice_in_class)
    have first: "0 < i \<and> is_word_char alnum (t ! (i - 1))"
      if "hd (slice t (i, j)) = apostrophe"
      using that sl(2) leading_apostrophe [OF c] by simp
    have final: "j < length t \<and> is_word_char alnum (t ! j)"
      if "last (slice t (i, j)) = apostrophe"
      using that sl(3) trailing_apostrophe [OF c] by simp
    have letters: "spec_word (slice t (i, j))"
      if "\<forall>c\<in>set t. is_word_char alnum c \<longrightarrow> is_lower_letter c"
      using starts_with_letter [OF span that] ends_with_letter [OF span that] len cls sl(2,3)
      by (simp add: spec_word_def)
    from ij(1,2) len cls first final letters show ?thesis
      by blast
  qed
  have every_word:
    "2 \<le> length w \<and> list_all in_class w \<and>
     ((\<forall>c\<in>set t. is_word_char alnum c \<longrightarrow> is_lower_letter c) \<longrightarrow> spec_word w)"
    if "w \<in> set (findall_words alnum t)" for w
  proof -
    from that obtain i j where "(i, j) \<in> set (finditer alnum t 0)" and "w = slice t (i, j)"
      by (auto simp: findall_words_def)
    with every_match [of i j] show ?thesis
      by blast
  qed
  from keys slices every_match every_word show ?thesis
    by blast
qed

theorem extracted_words_shape_witness:
  "(2, 7) \<in> set (finditer (\<lambda>c. False) [105, 32, 100, 111, 110, 39, 116, 46] 0) \<and>
   slice [105, 32, 100, 111, 110, 39, 116, 46] (2, 7) = [100, 111, 110, 39, 116] \<and>
   [100, 111, 110, 39, 116] \<in> set (findall_words (\<lambda>c. False) [105, 32, 100, 111, 110, 39, 116, 46]) \<and>
   list_all (\<lambda>c. is_word_char (\<lambda>c. False) c = is_lower_letter c) [105, 32, 100, 111, 110, 39, 116, 46] \<and>
   2 \<le> length [100, 111, 110, 39, 116 :: nat] \<and>
   list_all in_class [100, 111, 110, 39, 116] \<and>
   spec_word [100, 111, 110, 39, 116]"
proof -
  have spans: "finditer (\<lambda>c. False) [105, 32, 100, 111, 110, 39, 116, 46] 0 = [(2, 7)]"
    by code_simp
  have span: "(2, 7) \<in> set (finditer (\<lambda>c. False) [105, 32, 100, 111, 110, 39, 116, 46] 0)"
    by (simp add: spans)
  have sl: "slice [105, 32, 100, 111, 110, 39, 116, 46] (2, 7) = [100, 111, 110, 39, 116]"
    by (simp add: slice_def)
  have mem: "[100, 111, 110, 39, 116]
      \<in> set (findall_words (\<lambda>c. False) [105, 32, 100, 111, 110, 39, 116, 46])"
    by (simp add: findall_words_def spans sl)
  have only: "\<forall>c\<in>set [105, 32, 100, 111, 110, 39, 116, 46].
      is_word_char (\<lambda>c. False) c \<longrightarrow> is_lower_letter c"
    by (simp add: is_word_char_def is_lower_letter_def)
  have all: "list_all (\<lambda>c. is_word_char (\<lambda>c. False) c = is_lower_letter c)
      [105, 32, 100, 111, 110, 39, 116, 46]"
    by (simp add: is_word_char_def is_lower_letter_def)
  have "2 \<le> length (slice [105, 32, 100, 111, 110, 39, 116, 46] (2, 7)) \<and>
      list_all in_class (slice [105, 32, 100, 111, 110, 39, 116, 46] (2, 7)) \<and>
      spec_word (slice [105, 32, 100, 111, 110, 39, 116, 46] (2, 7))"
    using extracted_words_shape [of "\<lambda>c. False" init_analyzer "[105, 32, 100, 111, 110, 39, 116, 46]"]
      span only
    by blast
  with span sl mem all show ?thesis
    by simp
qed

text \<open>The text \<open>1'ab\<close>: the only match is \<open>'ab\<close>, which begins with an apostrophe, and
  it is the word that \<open>process\<close> adds to the table. In \<open>1''1\<close> the match is \<open>''\<close>.\<close>

theorem edge_apostrophe_counterexample:
  "findall_words (\<lambda>c. False) [49, 39, 97, 98] = [[39, 97, 98]] \<and>
   \<not> spec_word [39, 97, 98] \<and>
   word_stats (process (\<lambda>t. t) (\<lambda>c. False) init_analyzer [49, 39, 97, 98]) = [([39, 97, 98], 1)] \<and>
   findall_words (\<lambda>c. False) [49, 39, 39, 49] = [[39, 39]] \<and>
   \<not> spec_word [39, 39]"
proof -
  have a: "findall_words (\<lambda>c. False) [49, 39, 97, 98] = [[39, 97, 98]]"
    by code_simp
  have b: "findall_words (\<lambda>c. False) [49, 39, 39, 49] = [[39, 39]]"
    by code_simp
  have c: "clean_text (\<lambda>t. t) [49, 39, 97, 98] = [49, 39, 97, 98]"
    by (simp add: clean_text_def strip_def is_space_def)
  have d: "\<not> spec_word [39, 97, 98]" "\<not> spec_word [39, 39]"
    by (simp_all add: spec_word_def is_lower_letter_def)
  have "word_stats (process (\<lambda>t. t) (\<lambda>c. False) init_analyzer [49, 39, 97, 98])
      = [([39, 97, 98], 1)]"
    by (simp add: process_def analyze_chars_def analyze_words_def Let_def c a init_analyzer_def)
  with a b d show ?thesis by simp
qed

section \<open>Bounds on the entropy\<close>























end
